theory Spec2Isabelle
  imports Main "HOL-Library.Sublist" "HOL-Library.Char_ord" "HOL-Library.List_Lexorder"
begin

section \<open>JavaScript values and the array store\<close>

text \<open>
  The pipeline builder of \<^verbatim>\<open>src/pipeline/TMPipeline.ts\<close> keeps its stages in a
  JavaScript array. Arrays are reference values: \<^verbatim>\<open>getPipeline()\<close> hands out the
  very array the object holds, and a \<^verbatim>\<open>$lookup\<close> stage holds the array of its
  sub-pipeline. The arrays therefore live in an explicit store, addressed by index; an
  allocation appends to the store and never touches an existing cell.

  Query documents given by the caller (\<^verbatim>\<open>$match\<close>, \<^verbatim>\<open>$set\<close>, ...) are never
  written by the class and are plain values. An object is the list of its own
  properties in insertion order.
\<close>

type_synonym addr = nat

datatype jsval =
    JUndefined
  | JNull
  | JBool bool
  | JNum int
  | JStr string
  | JArr "jsval list"
  | JObj "(string \<times> jsval) list"
  | JRef addr

type_synonym fields = "(string \<times> jsval) list"

type_synonym store = "jsval list list"

text \<open>Assigning a property: an existing key keeps its place and takes the new value,
  a new key goes last.\<close>

fun obj_set :: "string \<Rightarrow> jsval \<Rightarrow> fields \<Rightarrow> fields" where
  "obj_set k v [] = [(k, v)]"
| "obj_set k v ((k', v') # fs) =
     (if k = k' then (k, v) # fs else (k', v') # obj_set k v fs)"

text \<open>Object spread \<^verbatim>\<open>{ ...target, ...src }\<close>: the properties of \<open>src\<close> are
  assigned in order.\<close>

definition spread :: "fields \<Rightarrow> fields \<Rightarrow> fields" where
  "spread target src = fold (\<lambda>(k, v). obj_set k v) src target"

definition obj_get :: "fields \<Rightarrow> string \<Rightarrow> jsval option" where
  "obj_get fs k = map_of fs k"

text \<open>An array literal allocates a new array.\<close>

definition new_array :: "jsval list \<Rightarrow> store \<Rightarrow> addr \<times> store" where
  "new_array xs h = (length h, h @ [xs])"

definition read :: "store \<Rightarrow> addr \<Rightarrow> jsval list" where
  "read h a = h ! a"

section \<open>TMCollection\<close>

record TMCollection =
  collectionName :: string

definition getCollectionName :: "TMCollection \<Rightarrow> string" where
  "getCollectionName c = collectionName c"

section \<open>TMPipeline\<close>

text \<open>The object has the single private field \<^verbatim>\<open>pipeline\<close>, a reference to its
  stage array. The field is assigned in the constructor only.\<close>

record TMPipeline =
  pipeline :: addr

text \<open>\<^verbatim>\<open>constructor(pipeline: unknown[] = [])\<close>: with an argument the reference is
  stored as it is; without one the default \<^verbatim>\<open>[]\<close> is a new array.\<close>

definition TMPipeline_new :: "addr \<Rightarrow> TMPipeline" where
  "TMPipeline_new a = \<lparr>pipeline = a\<rparr>"

definition TMPipeline_default :: "store \<Rightarrow> TMPipeline \<times> store" where
  "TMPipeline_default h = (let (a, h') = new_array [] h in (TMPipeline_new a, h'))"

definition getPipeline :: "TMPipeline \<Rightarrow> addr" where
  "getPipeline this = pipeline this"

text \<open>\<^verbatim>\<open>TMCollection.aggregate()\<close> is \<^verbatim>\<open>new TMPipeline()\<close>.\<close>

definition aggregate :: "TMCollection \<Rightarrow> store \<Rightarrow> TMPipeline \<times> store" where
  "aggregate c h = TMPipeline_default h"

text \<open>The callback type \<^verbatim>\<open>PLFrom\<close>: caller code that receives a pipeline and returns
  one. It runs against the store like any other code.\<close>

type_synonym PLFrom = "TMPipeline \<Rightarrow> store \<Rightarrow> TMPipeline \<times> store"

subsection \<open>Stages with a plain query\<close>

definition custom :: "jsval list \<Rightarrow> TMPipeline \<Rightarrow> store \<Rightarrow> TMPipeline \<times> store" where
  "custom pipelineStages this h =
     (let (a, h') = new_array (read h (pipeline this) @ pipelineStages) h
      in (TMPipeline_new a, h'))"

definition match :: "jsval \<Rightarrow> TMPipeline \<Rightarrow> store \<Rightarrow> TMPipeline \<times> store" where
  "match q this h =
     (let (a, h') = new_array (read h (pipeline this) @ [JObj [(''$match'', q)]]) h
      in (TMPipeline_new a, h'))"

definition set_stage :: "jsval \<Rightarrow> TMPipeline \<Rightarrow> store \<Rightarrow> TMPipeline \<times> store" where
  "set_stage q this h =
     (let (a, h') = new_array (read h (pipeline this) @ [JObj [(''$set'', q)]]) h
      in (TMPipeline_new a, h'))"

definition unset :: "jsval \<Rightarrow> TMPipeline \<Rightarrow> store \<Rightarrow> TMPipeline \<times> store" where
  "unset q this h =
     (let (a, h') = new_array (read h (pipeline this) @ [JObj [(''$unset'', q)]]) h
      in (TMPipeline_new a, h'))"

definition group :: "jsval \<Rightarrow> TMPipeline \<Rightarrow> store \<Rightarrow> TMPipeline \<times> store" where
  "group q this h =
     (let (a, h') = new_array (read h (pipeline this) @ [JObj [(''$group'', q)]]) h
      in (TMPipeline_new a, h'))"

definition project :: "jsval \<Rightarrow> TMPipeline \<Rightarrow> store \<Rightarrow> TMPipeline \<times> store" where
  "project q this h =
     (let (a, h') = new_array (read h (pipeline this) @ [JObj [(''$project'', q)]]) h
      in (TMPipeline_new a, h'))"

definition replaceRoot :: "jsval \<Rightarrow> TMPipeline \<Rightarrow> store \<Rightarrow> TMPipeline \<times> store" where
  "replaceRoot q this h =
     (let (a, h') = new_array (read h (pipeline this) @ [JObj [(''$replaceRoot'', q)]]) h
      in (TMPipeline_new a, h'))"

definition out :: "string \<Rightarrow> TMPipeline \<Rightarrow> store \<Rightarrow> TMPipeline \<times> store" where
  "out s this h =
     (let (a, h') = new_array (read h (pipeline this) @ [JObj [(''$out'', JStr s)]]) h
      in (TMPipeline_new a, h'))"

subsection \<open>lookup and unionWith\<close>

text \<open>The argument of \<^verbatim>\<open>lookup\<close> is one of two object shapes:
  \<^verbatim>\<open>{ from, localField, foreignField, as, pipeline? }\<close> or
  \<^verbatim>\<open>{ from, as, pipeline }\<close>.\<close>

datatype lookup_query =
    LookupFields TMCollection string string string "PLFrom option"
  | LookupSub TMCollection string PLFrom

text \<open>\<^verbatim>\<open>const { from, pipeline, ...$lookupRest } = $lookup\<close>\<close>

fun lookup_from :: "lookup_query \<Rightarrow> TMCollection" where
  "lookup_from (LookupFields c lf ff as' pl) = c"
| "lookup_from (LookupSub c as' pl) = c"

fun lookup_pipeline :: "lookup_query \<Rightarrow> PLFrom option" where
  "lookup_pipeline (LookupFields c lf ff as' pl) = pl"
| "lookup_pipeline (LookupSub c as' pl) = Some pl"

fun lookupRest :: "lookup_query \<Rightarrow> fields" where
  "lookupRest (LookupFields c lf ff as' pl) =
     [(''localField'', JStr lf), (''foreignField'', JStr ff), (''as'', JStr as')]"
| "lookupRest (LookupSub c as' pl) = [(''as'', JStr as')]"

text \<open>\<^verbatim>\<open>pipeline ? pipeline(new TMPipeline()) : undefined\<close>\<close>

definition resolve :: "PLFrom option \<Rightarrow> store \<Rightarrow> TMPipeline option \<times> store" where
  "resolve pl h =
     (case pl of
        None \<Rightarrow> (None, h)
      | Some f \<Rightarrow>
          (let (p0, h0) = TMPipeline_default h; (rp, h1) = f p0 h0 in (Some rp, h1)))"

text \<open>\<^verbatim>\<open>...(resolvedPipeline && { pipeline: resolvedPipeline.getPipeline() })\<close>\<close>

definition pipeline_field :: "TMPipeline option \<Rightarrow> fields" where
  "pipeline_field resolvedPipeline =
     (case resolvedPipeline of
        None \<Rightarrow> []
      | Some rp \<Rightarrow> [(''pipeline'', JRef (getPipeline rp))])"

definition lookup :: "lookup_query \<Rightarrow> TMPipeline \<Rightarrow> store \<Rightarrow> TMPipeline \<times> store" where
  "lookup q this h =
     (let (resolvedPipeline, h1) = resolve (lookup_pipeline q) h;
          stage = JObj [(''$lookup'',
                    JObj (spread
                           (spread [(''from'', JStr (getCollectionName (lookup_from q)))]
                              (lookupRest q))
                           (pipeline_field resolvedPipeline)))];
          (a, h2) = new_array (read h1 (pipeline this) @ [stage]) h1
      in (TMPipeline_new a, h2))"

text \<open>The argument of \<^verbatim>\<open>unionWith\<close> is \<^verbatim>\<open>{ coll, pipeline? }\<close>.\<close>

datatype unionWith_query = UnionWithQuery TMCollection "PLFrom option"

fun union_coll :: "unionWith_query \<Rightarrow> TMCollection" where
  "union_coll (UnionWithQuery c pl) = c"

fun union_pipeline :: "unionWith_query \<Rightarrow> PLFrom option" where
  "union_pipeline (UnionWithQuery c pl) = pl"

definition unionWith :: "unionWith_query \<Rightarrow> TMPipeline \<Rightarrow> store \<Rightarrow> TMPipeline \<times> store" where
  "unionWith q this h =
     (let (resolvedPipeline, h1) = resolve (union_pipeline q) h;
          stage = JObj [(''$unionWith'',
                    JObj (spread [(''coll'', JStr (getCollectionName (union_coll q)))]
                           (pipeline_field resolvedPipeline)))];
          (a, h2) = new_array (read h1 (pipeline this) @ [stage]) h1
      in (TMPipeline_new a, h2))"

subsection \<open>Chains of stage calls\<close>

datatype call =
    CCustom "jsval list"
  | CMatch jsval
  | CSet jsval
  | CUnset jsval
  | CLookup lookup_query
  | CGroup jsval
  | CProject jsval
  | CReplaceRoot jsval
  | CUnionWith unionWith_query
  | COut string

fun invoke :: "call \<Rightarrow> TMPipeline \<Rightarrow> store \<Rightarrow> TMPipeline \<times> store" where
  "invoke (CCustom xs) = custom xs"
| "invoke (CMatch q) = match q"
| "invoke (CSet q) = set_stage q"
| "invoke (CUnset q) = unset q"
| "invoke (CLookup q) = lookup q"
| "invoke (CGroup q) = group q"
| "invoke (CProject q) = project q"
| "invoke (CReplaceRoot q) = replaceRoot q"
| "invoke (CUnionWith q) = unionWith q"
| "invoke (COut s) = out s"

text \<open>\<^verbatim>\<open>p.m1(...).m2(...)...\<close>\<close>

fun chain :: "call list \<Rightarrow> TMPipeline \<Rightarrow> store \<Rightarrow> TMPipeline \<times> store" where
  "chain [] p h = (p, h)"
| "chain (c # cs) p h = (let (p', h') = invoke c p h in chain cs p' h')"

text \<open>A pipeline object is live in a store when its array is allocated there.\<close>

definition live :: "store \<Rightarrow> TMPipeline \<Rightarrow> bool" where
  "live h p = (pipeline p < length h)"

text \<open>A callback is a builder when it only allocates: every array of the store it
  starts in is still there, unchanged, when it returns, and the pipeline it returns is
  live. Every chain of stage calls is one.\<close>

definition builder :: "PLFrom \<Rightarrow> bool" where
  "builder f = (\<forall>p h. live h p \<longrightarrow> prefix h (snd (f p h)) \<and> live (snd (f p h)) (fst (f p h)))"

fun callback :: "call \<Rightarrow> PLFrom option" where
  "callback (CLookup q) = lookup_pipeline q"
| "callback (CUnionWith q) = union_pipeline q"
| "callback c = None"

definition builders :: "call \<Rightarrow> bool" where
  "builders c = (case callback c of None \<Rightarrow> True | Some f \<Rightarrow> builder f)"

text \<open>What one call appends to the stage array: \<open>custom\<close> its stages, every other
  method one object with the single key of its stage.\<close>

fun stage_key :: "call \<Rightarrow> string" where
  "stage_key (CCustom xs) = []"
| "stage_key (CMatch q) = ''$match''"
| "stage_key (CSet q) = ''$set''"
| "stage_key (CUnset q) = ''$unset''"
| "stage_key (CLookup q) = ''$lookup''"
| "stage_key (CGroup q) = ''$group''"
| "stage_key (CProject q) = ''$project''"
| "stage_key (CReplaceRoot q) = ''$replaceRoot''"
| "stage_key (CUnionWith q) = ''$unionWith''"
| "stage_key (COut s) = ''$out''"

fun keyed_object :: "string \<Rightarrow> jsval list \<Rightarrow> bool" where
  "keyed_object k [JObj [(k', JObj fs)]] = (k' = k)"
| "keyed_object k ys = False"

fun appended_by :: "call \<Rightarrow> jsval list \<Rightarrow> bool" where
  "appended_by (CCustom xs) ys = (ys = xs)"
| "appended_by (CMatch q) ys = (ys = [JObj [(''$match'', q)]])"
| "appended_by (CSet q) ys = (ys = [JObj [(''$set'', q)]])"
| "appended_by (CUnset q) ys = (ys = [JObj [(''$unset'', q)]])"
| "appended_by (CGroup q) ys = (ys = [JObj [(''$group'', q)]])"
| "appended_by (CProject q) ys = (ys = [JObj [(''$project'', q)]])"
| "appended_by (CReplaceRoot q) ys = (ys = [JObj [(''$replaceRoot'', q)]])"
| "appended_by (COut s) ys = (ys = [JObj [(''$out'', JStr s)]])"
| "appended_by c ys = keyed_object (stage_key c) ys"

text \<open>The shared body of the stage methods, for the proofs: a new array holding the
  receiver's stages followed by \<open>xs\<close>, and a new object around it.\<close>

definition push :: "jsval list \<Rightarrow> TMPipeline \<Rightarrow> store \<Rightarrow> TMPipeline \<times> store" where
  "push xs this h =
     (let (a, h') = new_array (read h (pipeline this) @ xs) h in (TMPipeline_new a, h'))"

section \<open>The orchestrator: data model\<close>

text \<open>
  The orchestrator (\<^verbatim>\<open>TMModel\<close>, \<^verbatim>\<open>TMProject\<close>) is exported by
  \<^verbatim>\<open>src/index.ts\<close> from \<^verbatim>\<open>./model/TMModel\<close> and \<^verbatim>\<open>./project/TMProject\<close>, but
  neither file is among the sources. The definitions of this part are therefore taken
  from the specification (sections 3 and 4), each marked as such.
\<close>

text \<open>Modelled from the spec: the edge kinds of a DependencyEdge, \<open>Primary | Auxiliary\<close>
  (section 3); the type is declared in the missing \<^verbatim>\<open>TMProject\<close>.\<close>

datatype kind = Primary | Auxiliary

text \<open>Modelled from the spec: MaterializationConfig, the tagged variant \<open>Replace\<close>,
  \<open>Upsert{key}\<close>, \<open>Append\<close> (section 3); declared in the missing \<^verbatim>\<open>TMModel\<close>.\<close>

datatype materialization = Replace | Upsert "string list" | Append

text \<open>Modelled from the spec: what the scanner may see of a stage (sections 4.1 and 6):
  either nothing it recognises, or the shape \<open>{ sourceName, optionalSubPipeline }\<close>, the
  sub-pipeline being a stage sequence of its own. The scanner is in the missing
  \<^verbatim>\<open>TMProject\<close>.\<close>

datatype stage = Opaque | Embeds string "stage list option"

text \<open>Modelled from the spec: Model (section 3), with what section 6 says a model
  exposes: its primary source reference, by name, and its raw stage sequence, from which
  the auxiliary inputs are scanned. \<^verbatim>\<open>TMModel\<close> is missing from the sources.\<close>

record model =
  name :: string
  primaryInput :: string
  stages :: "stage list"
  outputName :: string
  materialization :: materialization

text \<open>Modelled from the spec: Source (section 3), an entity addressable by name, either a
  \<open>Collection\<close> carrying only a name or a \<open>Model\<close>, which carries its dependency set and
  its output name. The missing \<^verbatim>\<open>TMProject\<close> holds the type.\<close>

datatype source = Collection string | Model model

text \<open>Modelled from the spec: the name a source is addressed by (section 3): a
  collection by its name, a model by its output name ("a model's \<open>outputName\<close> becomes a
  valid Source name other models may reference"). Part of the missing Source Registry.\<close>

fun source_name :: "source \<Rightarrow> string" where
  "source_name (Collection c) = c"
| "source_name (Model m) = outputName m"

text \<open>Modelled from the spec: the Source Registry (sections 2 and 3), which owns the
  name-to-Source mapping and resolves a referenced name to a collection or a model; the
  first source registered under a name is the one found. Missing with \<^verbatim>\<open>TMProject\<close>.\<close>

type_synonym registry = "source list"

definition lookup_source :: "registry \<Rightarrow> string \<Rightarrow> source option" where
  "lookup_source reg r = find (\<lambda>s. source_name s = r) reg"

text \<open>Modelled from the spec: the registered models (section 3, \<open>models\<close> of a Project);
  part of the missing \<^verbatim>\<open>TMProject\<close>.\<close>

fun models :: "registry \<Rightarrow> model list" where
  "models [] = []"
| "models (Collection c # reg) = models reg"
| "models (Model m # reg) = m # models reg"

text \<open>Modelled from the spec: the mapping from a model's name to the model (section 3,
  \<open>models: mapping name\<rightarrow>Model\<close>), by which a target is found; part of the missing
  \<^verbatim>\<open>TMProject\<close>.\<close>

definition lookup_model :: "registry \<Rightarrow> string \<Rightarrow> model option" where
  "lookup_model reg n = find (\<lambda>m. name m = n) (models reg)"

section \<open>The orchestrator: Reference Scanner\<close>

text \<open>Modelled from the spec: the source names a stage embeds (sections 4.1 and 6): the
  name of a join or union operand, and, recursively, those of its sub-pipeline. Part of
  the missing Reference Scanner.\<close>

fun embedded :: "stage \<Rightarrow> string list" where
  "embedded Opaque = []"
| "embedded (Embeds n None) = [n]"
| "embedded (Embeds n (Some sub)) = n # concat (map embedded sub)"

text \<open>Modelled from the spec: the result of \<open>scan\<close> (section 4.1), exactly one primary
  reference and the auxiliary references; missing with the Reference Scanner.\<close>

record references =
  primary :: string
  auxiliary :: "string list"

text \<open>Modelled from the spec: \<open>scan(transformationDefinition, knownSources)\<close> of the
  missing Reference Scanner (section 4.1). The primary reference is the declared input;
  the auxiliary references are the embedded names, deduplicated. A name that is not in
  \<open>knownSources\<close> is not an error here.\<close>

definition scan :: "model \<Rightarrow> string list \<Rightarrow> references" where
  "scan m knownSources =
     \<lparr>primary = primaryInput m, auxiliary = remdups (concat (map embedded (stages m)))\<rparr>"

section \<open>The orchestrator: Graph Builder\<close>

text \<open>Modelled from the spec: DependencyEdge \<open>(from, to, kind)\<close> (section 3), with model
  and source given by name; declared in the missing \<^verbatim>\<open>TMProject\<close>.\<close>

type_synonym edge = "string \<times> string \<times> kind"

text \<open>Modelled from the spec: the Graph that \<open>build\<close> returns and \<open>schedule\<close> reads
  (sections 4.2 and 4.4): the models discovered, in discovery order, and the dependency
  edges. Missing with \<^verbatim>\<open>TMProject\<close>.\<close>

record graph =
  nodes :: "string list"
  edges :: "edge list"

text \<open>Modelled from the spec: the names of the registered models (section 3), unique
  within a Project; part of the missing \<^verbatim>\<open>TMProject\<close>.\<close>

definition model_names :: "registry \<Rightarrow> string list" where
  "model_names reg = map name (models reg)"

text \<open>Modelled from the spec: what the missing Graph Builder has still to look at
  (section 4.2): a target, given by model name, or a reference found by the scanner,
  given by source name.\<close>

datatype wanted = Target string | Reference string

text \<open>Modelled from the spec: the model a work item stands for, if any (section 4.2): a
  target is found by its model name; a reference is resolved by the registry and counts
  only when the source is a model (a collection ends the recursion). Part of the missing
  Graph Builder.\<close>

fun resolve_wanted :: "registry \<Rightarrow> wanted \<Rightarrow> model option" where
  "resolve_wanted reg (Target n) = lookup_model reg n"
| "resolve_wanted reg (Reference r) =
     (case lookup_source reg r of Some (Model m) \<Rightarrow> Some m | _ \<Rightarrow> None)"

text \<open>Modelled from the spec: the \<open>to\<close> of a DependencyEdge (section 3): a referenced
  model is named by its model name, as the nodes are; any other reference keeps the
  source name it was written with. Part of the missing Graph Builder.\<close>

definition edge_target :: "registry \<Rightarrow> string \<Rightarrow> string" where
  "edge_target reg r = (case lookup_source reg r of Some (Model m) \<Rightarrow> name m | _ \<Rightarrow> r)"

text \<open>Modelled from the spec: one expansion step of the missing Graph Builder (section
  4.2): the model becomes a node, with a DependencyEdge for its primary reference and one
  for each auxiliary reference.\<close>

definition expand :: "registry \<Rightarrow> model \<Rightarrow> references \<Rightarrow> graph \<Rightarrow> graph" where
  "expand reg m r g =
     g\<lparr>nodes := nodes g @ [name m],
        edges := edges g @ (name m, edge_target reg (primary r), Primary) #
                   map (\<lambda>a. (name m, edge_target reg a, Auxiliary)) (auxiliary r)\<rparr>"

text \<open>Modelled from the spec: the traversal of the missing Graph Builder (sections 4.2
  and 9), iterative, with a work list and the set of models already expanded. A work item
  that stands for a model not yet expanded is expanded, and the references the scanner
  finds in it are put on the work list; a model already expanded is not followed again; a
  collection, or a name that is not registered, ends the recursion. It terminates on
  cyclic input: every step either expands a registered model for the first time or
  shortens the work list.\<close>

function build_loop :: "registry \<Rightarrow> wanted list \<Rightarrow> graph \<Rightarrow> graph" where
  "build_loop reg [] g = g"
| "build_loop reg (w # work) g =
     (case resolve_wanted reg w of
        None \<Rightarrow> build_loop reg work g
      | Some m \<Rightarrow>
          if name m \<in> set (nodes g) then build_loop reg work g
          else (let r = scan m (map source_name reg)
                in build_loop reg (Reference (primary r) # map Reference (auxiliary r) @ work)
                     (expand reg m r g)))"
  by pat_completeness auto
termination
proof (relation "measures [\<lambda>(reg, work, g). card (set (model_names reg) - set (nodes g)),
                           \<lambda>(reg, work, g). length work]", goal_cases)
  case 1
  then show ?case by simp
next
  case (2 reg w work g)
  then show ?case by simp
next
  case (3 reg w work g m)
  then show ?case by simp
next
  case (4 reg w work g m r)
  have registered: "Model x \<in> set rs \<Longrightarrow> x \<in> set (models rs)" for x rs
    by (induction rs rule: models.induct) auto
  have "m \<in> set (models reg)"
  proof (cases w)
    case (Target n)
    then have "find (\<lambda>x. name x = n) (models reg) = Some m"
      using 4(1) by (simp add: lookup_model_def)
    then show ?thesis unfolding find_Some_iff by (metis nth_mem)
  next
    case (Reference q)
    then have "find (\<lambda>s. source_name s = q) reg = Some (Model m)"
      using 4(1) by (simp add: lookup_source_def split: option.splits source.splits)
    then have "Model m \<in> set reg" unfolding find_Some_iff by (metis nth_mem)
    then show ?thesis by (rule registered)
  qed
  then have "name m \<in> set (model_names reg)" by (simp add: model_names_def)
  then have "set (model_names reg) - set (nodes (expand reg m r g))
      \<subset> set (model_names reg) - set (nodes g)"
    using 4(2) by (auto simp: expand_def)
  then have "card (set (model_names reg) - set (nodes (expand reg m r g)))
      < card (set (model_names reg) - set (nodes g))"
    by (intro psubset_card_mono) simp_all
  then show ?case by simp
qed

text \<open>Modelled from the spec: \<open>build(targets)\<close> of the missing Graph Builder (section
  4.2), starting from the targets, given by model name, with nothing discovered.\<close>

definition build :: "registry \<Rightarrow> string list \<Rightarrow> graph" where
  "build reg targets = build_loop reg (map Target targets) \<lparr>nodes = [], edges = []\<rparr>"

text \<open>Modelled from the spec: "a stage embeds a reference to source \<open>r\<close>" (sections 4.1
  and 6), stated without the scanner: \<open>r\<close> is the join or union operand of the stage, or
  a stage of its sub-pipeline embeds \<open>r\<close>. It states what the missing Reference Scanner
  has to find.\<close>

inductive embeds :: "stage \<Rightarrow> string \<Rightarrow> bool" where
  operand: "embeds (Embeds n sub) n"
| nested: "s \<in> set ss \<Longrightarrow> embeds s r \<Longrightarrow> embeds (Embeds n (Some ss)) r"

text \<open>Modelled from the spec: "model \<open>m\<close> reads from source \<open>r\<close>" (sections 3 and 4.4):
  \<open>r\<close> is its primary input, or one of its stages embeds \<open>r\<close> (an auxiliary reference).
  It is stated on the model itself, not on what the scanner returns.\<close>

definition reads :: "model \<Rightarrow> string \<Rightarrow> bool" where
  "reads m r = (r = primaryInput m \<or> (\<exists>s\<in>set (stages m). embeds s r))"

text \<open>Modelled from the spec: "the model named \<open>a\<close> requires the model named \<open>b\<close>"
  (section 4.2): \<open>a\<close> reads from a source that the registry resolves to \<open>b\<close>.
  "Transitively required" is the reflexive transitive closure. It states the guarantee of
  the missing Graph Builder.\<close>

definition requires :: "registry \<Rightarrow> (string \<times> string) set" where
  "requires reg =
     {(a, b). \<exists>m r m'. lookup_model reg a = Some m \<and> reads m r \<and>
        lookup_source reg r = Some (Model m') \<and> b = name m'}"

section \<open>The orchestrator: Scheduler\<close>









text \<open>Two notions for the proofs about the Graph Builder: a work item stands for a
  model that is not yet expanded, and the names of the models that the work list stands
  for.\<close>

definition fresh :: "registry \<Rightarrow> wanted \<Rightarrow> graph \<Rightarrow> model \<Rightarrow> bool" where
  "fresh reg w g m = (resolve_wanted reg w = Some m \<and> name m \<notin> set (nodes g))"

definition pending :: "registry \<Rightarrow> wanted list \<Rightarrow> string set" where
  "pending reg work = {name m |m w. w \<in> set work \<and> resolve_wanted reg w = Some m}"

section \<open>The store is only ever extended\<close>

lemma new_array_prefix: "new_array xs h = (a, h') \<Longrightarrow> prefix h h'"
  by (auto simp: new_array_def)

lemma new_array_read: "new_array xs h = (a, h') \<Longrightarrow> read h' a = xs"
  by (auto simp: new_array_def read_def)

lemma new_array_fresh: "new_array xs h = (a, h') \<Longrightarrow> a = length h \<and> length h' = Suc (length h)"
  by (auto simp: new_array_def)

lemma prefix_read: "prefix h h' \<Longrightarrow> a < length h \<Longrightarrow> read h' a = read h a"
  by (auto simp: prefix_def read_def nth_append)

lemma prefix_live: "prefix h h' \<Longrightarrow> live h p \<Longrightarrow> live h' p"
  by (auto simp: prefix_def live_def)


lemma push_spec:
  "push xs this h = (p', h') \<Longrightarrow>
     h' = h @ [read h (getPipeline this) @ xs] \<and> getPipeline p' = length h"
  by (auto simp: push_def new_array_def TMPipeline_new_def getPipeline_def)

lemma plain_push:
  "custom xs = push xs"
  "match q = push [JObj [(''$match'', q)]]"
  "set_stage q = push [JObj [(''$set'', q)]]"
  "unset q = push [JObj [(''$unset'', q)]]"
  "group q = push [JObj [(''$group'', q)]]"
  "project q = push [JObj [(''$project'', q)]]"
  "replaceRoot q = push [JObj [(''$replaceRoot'', q)]]"
  "out s = push [JObj [(''$out'', JStr s)]]"
  by (auto simp: fun_eq_iff push_def custom_def match_def set_stage_def unset_def group_def
      project_def replaceRoot_def out_def)

lemma default_spec:
  "TMPipeline_default h = (p0, h0) \<Longrightarrow> h0 = h @ [[]] \<and> getPipeline p0 = length h"
  by (auto simp: TMPipeline_default_def new_array_def TMPipeline_new_def getPipeline_def)

lemma resolve_None: "resolve None h = (None, h)"
  by (simp add: resolve_def)

lemma resolve_Some:
  "resolve (Some f) h = (Some (fst (f (fst (TMPipeline_default h)) (snd (TMPipeline_default h)))),
       snd (f (fst (TMPipeline_default h)) (snd (TMPipeline_default h))))"
  by (simp add: resolve_def split: prod.splits)

lemma resolve_prefix:
  assumes "case pl of None \<Rightarrow> True | Some f \<Rightarrow> builder f" and "resolve pl h = (r, h1)"
  shows "prefix h h1"
proof (cases pl)
  case None
  with assms show ?thesis by (simp add: resolve_None)
next
  case (Some f)
  obtain p0 h0 where d: "TMPipeline_default h = (p0, h0)" by (cases "TMPipeline_default h")
  then have h0: "h0 = h @ [[]]" and "getPipeline p0 = length h" using default_spec by blast+
  then have "live h0 p0" by (simp add: live_def getPipeline_def)
  moreover have "builder f" using assms(1) Some by simp
  ultimately have "prefix h0 (snd (f p0 h0))" by (simp add: builder_def)
  moreover have "h1 = snd (f p0 h0)" using assms(2) Some d by (simp add: resolve_Some)
  ultimately show ?thesis using h0 by (auto simp: prefix_def)
qed


lemma resolve_live:
  assumes "case pl of None \<Rightarrow> True | Some f \<Rightarrow> builder f" and "resolve pl h = (Some rp, h1)"
  shows "live h1 rp"
proof (cases pl)
  case None
  with assms show ?thesis by (simp add: resolve_None)
next
  case (Some f)
  obtain p0 h0 where d: "TMPipeline_default h = (p0, h0)" by (cases "TMPipeline_default h")
  then have h0: "h0 = h @ [[]]" and "getPipeline p0 = length h" using default_spec by blast+
  then have "live h0 p0" by (simp add: live_def getPipeline_def)
  moreover have "builder f" using assms(1) Some by simp
  ultimately have "live (snd (f p0 h0)) (fst (f p0 h0))" by (simp add: builder_def)
  moreover have "h1 = snd (f p0 h0)" "rp = fst (f p0 h0)"
    using assms(2) Some d by (simp_all add: resolve_Some)
  ultimately show ?thesis by simp
qed

lemma push_props:
  assumes "push xs this h = (p', h')"
  shows "prefix h h'" and "getPipeline p' = length h" and "length h' = Suc (length h)"
    and "read h' (getPipeline p') = read h (getPipeline this) @ xs"
  using push_spec [OF assms] by (auto simp: read_def)

lemma lookup_unfold:
  "lookup q this h =
     push [JObj [(''$lookup'',
                    JObj (spread
                           (spread [(''from'', JStr (getCollectionName (lookup_from q)))]
                              (lookupRest q))
                           (pipeline_field (fst (resolve (lookup_pipeline q) h)))))]]
       this (snd (resolve (lookup_pipeline q) h))"
  by (simp add: lookup_def push_def split: prod.splits)

lemma unionWith_unfold:
  "unionWith q this h =
     push [JObj [(''$unionWith'',
                    JObj (spread [(''coll'', JStr (getCollectionName (union_coll q)))]
                           (pipeline_field (fst (resolve (union_pipeline q) h)))))]]
       this (snd (resolve (union_pipeline q) h))"
  by (simp add: unionWith_def push_def split: prod.splits)

lemma invoke_push:
  "\<exists>ys h1. appended_by c ys \<and> h1 = snd (resolve (callback c) h) \<and> invoke c this h = push ys this h1"
proof (cases c)
  case (CLookup q)
  show ?thesis
    apply (simp add: CLookup lookup_unfold)
    apply (rule exI, rule conjI)
     prefer 2
     apply (rule refl)
    apply simp
    done
next
  case (CUnionWith q)
  show ?thesis
    apply (simp add: CUnionWith unionWith_unfold)
    apply (rule exI, rule conjI)
     prefer 2
     apply (rule refl)
    apply simp
    done
qed (simp_all add: plain_push resolve_None)

lemma invoke_props:
  assumes "live h this" and "builders c" and "invoke c this h = (p', h')"
  shows "prefix h h'" and "length h \<le> getPipeline p'" and "live h' p'"
    and "\<exists>ys. appended_by c ys \<and> read h' (getPipeline p') = read h (getPipeline this) @ ys"
proof -
  obtain ys h1 where ys: "appended_by c ys" and h1: "h1 = snd (resolve (callback c) h)"
    and inv: "invoke c this h = push ys this h1"
    using invoke_push by blast
  have pre: "prefix h h1"
    using resolve_prefix [of "callback c" h "fst (resolve (callback c) h)" h1] assms(2) h1
    by (simp add: builders_def)
  have p: "push ys this h1 = (p', h')" using inv assms(3) by simp
  note pp = push_props [OF p]
  show "prefix h h'" using pre pp(1) by (rule prefix_order.trans)
  show "length h \<le> getPipeline p'" using pre pp(2) by (simp add: prefix_length_le)
  show "live h' p'" using pp(2,3) by (simp add: live_def getPipeline_def)
  have "read h1 (getPipeline this) = read h (getPipeline this)"
    using pre assms(1) by (simp add: prefix_read live_def getPipeline_def)
  then show "\<exists>ys. appended_by c ys \<and> read h' (getPipeline p') = read h (getPipeline this) @ ys"
    using ys pp(4) by auto
qed

lemma chain_props:
  assumes "live h this" and "\<forall>c\<in>set cs. builders c" and "chain cs this h = (p', h')"
  shows "prefix h h' \<and> live h' p' \<and> (cs \<noteq> [] \<longrightarrow> length h \<le> getPipeline p') \<and>
     (\<exists>yss. list_all2 appended_by cs yss \<and>
        read h' (getPipeline p') = read h (getPipeline this) @ concat yss)"
  using assms
proof (induction cs arbitrary: this h)
  case Nil
  then show ?case by simp
next
  case (Cons c cs)
  obtain p1 h1 where i: "invoke c this h = (p1, h1)" by (cases "invoke c this h")
  have b: "builders c" using Cons.prems(2) by simp
  note ip = invoke_props [OF Cons.prems(1) b i]
  from ip(4) obtain ys where ys: "appended_by c ys"
    "read h1 (getPipeline p1) = read h (getPipeline this) @ ys" by blast
  have rest: "chain cs p1 h1 = (p', h')" using Cons.prems(3) i by simp
  have "prefix h1 h' \<and> live h' p' \<and> (cs \<noteq> [] \<longrightarrow> length h1 \<le> getPipeline p') \<and>
     (\<exists>yss. list_all2 appended_by cs yss \<and>
        read h' (getPipeline p') = read h1 (getPipeline p1) @ concat yss)"
    using Cons.IH [OF ip(3) _ rest] Cons.prems(2) by simp
  then obtain yss where "prefix h1 h'" "live h' p'" "cs \<noteq> [] \<longrightarrow> length h1 \<le> getPipeline p'"
    "list_all2 appended_by cs yss"
    "read h' (getPipeline p') = read h1 (getPipeline p1) @ concat yss" by blast
  moreover have "cs = [] \<Longrightarrow> p' = p1" using rest by simp
  ultimately have "prefix h h'" "live h' p'" "length h \<le> getPipeline p'"
    "list_all2 appended_by (c # cs) (ys # yss)"
    "read h' (getPipeline p') = read h (getPipeline this) @ concat (ys # yss)"
    using ip(1,2) ys prefix_length_le [OF ip(1)] by (auto intro: prefix_order.trans)
  then show ?case by blast
qed


lemma obj_get_set: "obj_get (obj_set k v fs) k' = (if k' = k then Some v else obj_get fs k')"
  by (induction fs) (auto simp: obj_get_def)

lemma builder_invoke: "builders c \<Longrightarrow> builder (invoke c)"
  unfolding builder_def
proof (intro allI impI)
  fix p h assume b: "builders c" and l: "live h p"
  obtain p' h' where i: "invoke c p h = (p', h')" by (cases "invoke c p h")
  show "prefix h (snd (invoke c p h)) \<and> live (snd (invoke c p h)) (fst (invoke c p h))"
    using invoke_props(1,3) [OF l b i] i by simp
qed

lemma builder_chain: "list_all builders cs \<Longrightarrow> builder (chain cs)"
  unfolding builder_def
proof (intro allI impI)
  fix p h assume b: "list_all builders cs" and l: "live h p"
  obtain p' h' where i: "chain cs p h = (p', h')" by (cases "chain cs p h")
  have "\<forall>c\<in>set cs. builders c" using b by (simp add: list_all_iff)
  from chain_props [OF l this i]
  show "prefix h (snd (chain cs p h)) \<and> live (snd (chain cs p h)) (fst (chain cs p h))"
    using i by simp
qed

section \<open>C10: getPipeline returns the stages in call order\<close>

text \<open>
  Claim C10. For every chain of stage calls on a pipeline, the array that
  \<open>getPipeline\<close> returns at the end holds the stages the receiver started with,
  unchanged and in their order, followed by what each call appended, in the order of the
  calls: \<open>custom\<close> appends its given stages in their order, and each of \<open>match\<close>,
  \<open>set\<close>, \<open>unset\<close>, \<open>lookup\<close>, \<open>group\<close>, \<open>project\<close>, \<open>replaceRoot\<close>,
  \<open>unionWith\<close> and \<open>out\<close> appends exactly one stage object (\<open>appended_by\<close>).
  Callbacks given to \<open>lookup\<close> and \<open>unionWith\<close> are builders.
\<close>

theorem getPipeline_call_order:
  assumes "live h this" and "list_all builders cs" and "chain cs this h = (p', h')"
  shows "\<exists>yss. list_all2 appended_by cs yss \<and>
           read h' (getPipeline p') = read h (getPipeline this) @ concat yss"
proof -
  have "\<forall>c\<in>set cs. builders c" using assms(2) by (simp add: list_all_iff)
  from chain_props [OF assms(1) this assms(3)] show ?thesis by blast
qed

section \<open>C8: the stage appended by lookup and unionWith\<close>

lemma spread_lookup_fields:
  "obj_get (spread (spread [(''from'', v)] (lookupRest q)) (pipeline_field r)) ''from'' = Some v"
  "obj_get (spread (spread [(''from'', v)] (lookupRest q)) (pipeline_field r)) ''pipeline'' =
     (case r of None \<Rightarrow> None | Some rp \<Rightarrow> Some (JRef (getPipeline rp)))"
  by (cases q; cases r; simp add: spread_def pipeline_field_def obj_get_def)+

lemma spread_union_fields:
  "obj_get (spread [(''coll'', v)] (pipeline_field r)) ''coll'' = Some v"
  "obj_get (spread [(''coll'', v)] (pipeline_field r)) ''pipeline'' =
     (case r of None \<Rightarrow> None | Some rp \<Rightarrow> Some (JRef (getPipeline rp)))"
  by (cases r; simp add: spread_def pipeline_field_def obj_get_def)+

lemma resolve_explicit:
  "resolve pl h =
     (case pl of
        None \<Rightarrow> (None, h)
      | Some f \<Rightarrow> (Some (fst (f \<lparr>pipeline = length h\<rparr> (h @ [[]]))),
                   snd (f \<lparr>pipeline = length h\<rparr> (h @ [[]]))))"
  by (simp add: resolve_def TMPipeline_default_def new_array_def TMPipeline_new_def
      split: option.splits prod.splits)

lemma lookup_stage:
  assumes "lookup q this h = (p', h')"
  shows "\<exists>fs. last (read h' (pipeline p')) = JObj [(''$lookup'', JObj fs)] \<and>
           obj_get fs ''from'' = Some (JStr (collectionName (lookup_from q))) \<and>
           (case lookup_pipeline q of
              None \<Rightarrow> obj_get fs ''pipeline'' = None
            | Some f \<Rightarrow>
                (case f \<lparr>pipeline = length h\<rparr> (h @ [[]]) of (rp, h1) \<Rightarrow>
                   obj_get fs ''pipeline'' = Some (JRef (pipeline rp)) \<and> prefix h1 h'))"
proof -
  let ?r = "resolve (lookup_pipeline q) h"
  let ?fs = "spread (spread [(''from'', JStr (getCollectionName (lookup_from q)))] (lookupRest q))
               (pipeline_field (fst ?r))"
  have p: "push [JObj [(''$lookup'', JObj ?fs)]] this (snd ?r) = (p', h')"
    using assms by (simp add: lookup_unfold)
  note pp = push_props [OF p]
  show ?thesis
  proof (intro exI [of _ ?fs] conjI)
    show "last (read h' (pipeline p')) = JObj [(''$lookup'', JObj ?fs)]"
      using pp(4) by (simp add: getPipeline_def)
    show "obj_get ?fs ''from'' = Some (JStr (collectionName (lookup_from q)))"
      by (simp add: spread_lookup_fields(1) getCollectionName_def)
    show "case lookup_pipeline q of
              None \<Rightarrow> obj_get ?fs ''pipeline'' = None
            | Some f \<Rightarrow>
                (case f \<lparr>pipeline = length h\<rparr> (h @ [[]]) of (rp, h1) \<Rightarrow>
                   obj_get ?fs ''pipeline'' = Some (JRef (pipeline rp)) \<and> prefix h1 h')"
    proof (cases "lookup_pipeline q")
      case None
      then show ?thesis by (simp add: spread_lookup_fields(2) resolve_explicit)
    next
      case (Some f)
      obtain rp h1 where f: "f \<lparr>pipeline = length h\<rparr> (h @ [[]]) = (rp, h1)"
        by (cases "f \<lparr>pipeline = length h\<rparr> (h @ [[]])")
      have "prefix h1 h'" using pp(1) Some f by (simp add: resolve_explicit)
      then show ?thesis using Some f
        by (simp add: spread_lookup_fields(2) resolve_explicit getPipeline_def)
    qed
  qed
qed

lemma unionWith_stage:
  assumes "unionWith q this h = (p', h')"
  shows "\<exists>fs. last (read h' (pipeline p')) = JObj [(''$unionWith'', JObj fs)] \<and>
           obj_get fs ''coll'' = Some (JStr (collectionName (union_coll q))) \<and>
           (case union_pipeline q of
              None \<Rightarrow> obj_get fs ''pipeline'' = None
            | Some f \<Rightarrow>
                (case f \<lparr>pipeline = length h\<rparr> (h @ [[]]) of (rp, h1) \<Rightarrow>
                   obj_get fs ''pipeline'' = Some (JRef (pipeline rp)) \<and> prefix h1 h'))"
proof -
  let ?r = "resolve (union_pipeline q) h"
  let ?fs = "spread [(''coll'', JStr (getCollectionName (union_coll q)))] (pipeline_field (fst ?r))"
  have p: "push [JObj [(''$unionWith'', JObj ?fs)]] this (snd ?r) = (p', h')"
    using assms by (simp add: unionWith_unfold)
  note pp = push_props [OF p]
  show ?thesis
  proof (intro exI [of _ ?fs] conjI)
    show "last (read h' (pipeline p')) = JObj [(''$unionWith'', JObj ?fs)]"
      using pp(4) by (simp add: getPipeline_def)
    show "obj_get ?fs ''coll'' = Some (JStr (collectionName (union_coll q)))"
      by (simp add: spread_union_fields(1) getCollectionName_def)
    show "case union_pipeline q of
              None \<Rightarrow> obj_get ?fs ''pipeline'' = None
            | Some f \<Rightarrow>
                (case f \<lparr>pipeline = length h\<rparr> (h @ [[]]) of (rp, h1) \<Rightarrow>
                   obj_get ?fs ''pipeline'' = Some (JRef (pipeline rp)) \<and> prefix h1 h')"
    proof (cases "union_pipeline q")
      case None
      then show ?thesis by (simp add: spread_union_fields(2) resolve_explicit)
    next
      case (Some f)
      obtain rp h1 where f: "f \<lparr>pipeline = length h\<rparr> (h @ [[]]) = (rp, h1)"
        by (cases "f \<lparr>pipeline = length h\<rparr> (h @ [[]])")
      have "prefix h1 h'" using pp(1) Some f by (simp add: resolve_explicit)
      then show ?thesis using Some f
        by (simp add: spread_union_fields(2) resolve_explicit getPipeline_def)
    qed
  qed
qed

text \<open>
  Claim C8. For each of the two argument shapes of \<open>lookup\<close>, with source \<open>c\<close>, the last
  stage of the pipeline that \<open>lookup\<close> returns is an object \<open>{ $lookup: fs }\<close> whose
  \<open>from\<close> field is the collection name of \<open>c\<close>, the string \<open>getCollectionName\<close> returns.
  Its \<open>pipeline\<close> field is absent when no sub-pipeline function was given; when a
  function \<open>f\<close> was given, it is the array of the pipeline that \<open>f\<close> returned for a new
  pipeline with an empty array, the array \<open>getPipeline\<close> returns, and \<open>lookup\<close> leaves the
  store \<open>f\<close> returned as it is. The same holds for \<open>unionWith\<close>, with the key
  \<open>$unionWith\<close> and the field \<open>coll\<close>.
\<close>

theorem lookup_unionWith_stage_shape:
  "(case lookup (LookupFields c lf ff as' pl) this h of (p', h') \<Rightarrow>
      \<exists>fs. last (read h' (pipeline p')) = JObj [(''$lookup'', JObj fs)] \<and>
        obj_get fs ''from'' = Some (JStr (collectionName c)) \<and>
        (case pl of
           None \<Rightarrow> obj_get fs ''pipeline'' = None
         | Some f \<Rightarrow>
             (case f \<lparr>pipeline = length h\<rparr> (h @ [[]]) of (rp, h1) \<Rightarrow>
                obj_get fs ''pipeline'' = Some (JRef (pipeline rp)) \<and> prefix h1 h'))) \<and>
   (case lookup (LookupSub c as' f) this h of (p', h') \<Rightarrow>
      \<exists>fs. last (read h' (pipeline p')) = JObj [(''$lookup'', JObj fs)] \<and>
        obj_get fs ''from'' = Some (JStr (collectionName c)) \<and>
        (case f \<lparr>pipeline = length h\<rparr> (h @ [[]]) of (rp, h1) \<Rightarrow>
           obj_get fs ''pipeline'' = Some (JRef (pipeline rp)) \<and> prefix h1 h')) \<and>
   (case unionWith (UnionWithQuery c pl) this h of (p', h') \<Rightarrow>
      \<exists>fs. last (read h' (pipeline p')) = JObj [(''$unionWith'', JObj fs)] \<and>
        obj_get fs ''coll'' = Some (JStr (collectionName c)) \<and>
        (case pl of
           None \<Rightarrow> obj_get fs ''pipeline'' = None
         | Some f \<Rightarrow>
             (case f \<lparr>pipeline = length h\<rparr> (h @ [[]]) of (rp, h1) \<Rightarrow>
                obj_get fs ''pipeline'' = Some (JRef (pipeline rp)) \<and> prefix h1 h'))) \<and>
   getCollectionName c = collectionName c \<and> getPipeline this = pipeline this \<and>
   read (h @ [[]]) (pipeline \<lparr>pipeline = length h\<rparr>) = []"
proof (intro conjI)
  obtain p' h' where l: "lookup (LookupFields c lf ff as' pl) this h = (p', h')"
    by (cases "lookup (LookupFields c lf ff as' pl) this h")
  from lookup_stage [OF l] show "case lookup (LookupFields c lf ff as' pl) this h of (p', h') \<Rightarrow>
      \<exists>fs. last (read h' (pipeline p')) = JObj [(''$lookup'', JObj fs)] \<and>
        obj_get fs ''from'' = Some (JStr (collectionName c)) \<and>
        (case pl of
           None \<Rightarrow> obj_get fs ''pipeline'' = None
         | Some f \<Rightarrow>
             (case f \<lparr>pipeline = length h\<rparr> (h @ [[]]) of (rp, h1) \<Rightarrow>
                obj_get fs ''pipeline'' = Some (JRef (pipeline rp)) \<and> prefix h1 h'))"
    unfolding l by simp
next
  obtain p' h' where l: "lookup (LookupSub c as' f) this h = (p', h')"
    by (cases "lookup (LookupSub c as' f) this h")
  from lookup_stage [OF l] show "case lookup (LookupSub c as' f) this h of (p', h') \<Rightarrow>
      \<exists>fs. last (read h' (pipeline p')) = JObj [(''$lookup'', JObj fs)] \<and>
        obj_get fs ''from'' = Some (JStr (collectionName c)) \<and>
        (case f \<lparr>pipeline = length h\<rparr> (h @ [[]]) of (rp, h1) \<Rightarrow>
           obj_get fs ''pipeline'' = Some (JRef (pipeline rp)) \<and> prefix h1 h')"
    unfolding l by simp
next
  obtain p' h' where u: "unionWith (UnionWithQuery c pl) this h = (p', h')"
    by (cases "unionWith (UnionWithQuery c pl) this h")
  from unionWith_stage [OF u] show "case unionWith (UnionWithQuery c pl) this h of (p', h') \<Rightarrow>
      \<exists>fs. last (read h' (pipeline p')) = JObj [(''$unionWith'', JObj fs)] \<and>
        obj_get fs ''coll'' = Some (JStr (collectionName c)) \<and>
        (case pl of
           None \<Rightarrow> obj_get fs ''pipeline'' = None
         | Some f \<Rightarrow>
             (case f \<lparr>pipeline = length h\<rparr> (h @ [[]]) of (rp, h1) \<Rightarrow>
                obj_get fs ''pipeline'' = Some (JRef (pipeline rp)) \<and> prefix h1 h'))"
    unfolding u by simp
qed (simp_all add: getCollectionName_def getPipeline_def read_def)

theorem lookup_unionWith_stage_shape_witness:
  "(case lookup (LookupFields \<lparr>collectionName = ''users''\<rparr> ''uid'' ''_id'' ''u'' None)
        \<lparr>pipeline = 0\<rparr> [[]] of
      (p', h') \<Rightarrow>
        last (read h' (pipeline p')) =
          JObj [(''$lookup'', JObj [(''from'', JStr ''users''), (''localField'', JStr ''uid''),
                  (''foreignField'', JStr ''_id''), (''as'', JStr ''u'')])]) \<and>
   (case lookup (LookupSub \<lparr>collectionName = ''users''\<rparr> ''u'' (match JNull))
        \<lparr>pipeline = 0\<rparr> [[]] of
      (p', h') \<Rightarrow>
        last (read h' (pipeline p')) =
          JObj [(''$lookup'', JObj [(''from'', JStr ''users''), (''as'', JStr ''u''),
                  (''pipeline'', JRef 2)])] \<and>
        read h' 2 = [JObj [(''$match'', JNull)]]) \<and>
   (case unionWith (UnionWithQuery \<lparr>collectionName = ''users''\<rparr> None)
        \<lparr>pipeline = 0\<rparr> [[]] of
      (p', h') \<Rightarrow>
        last (read h' (pipeline p')) =
          JObj [(''$unionWith'', JObj [(''coll'', JStr ''users'')])])"
  using lookup_unionWith_stage_shape
    [where c = "\<lparr>collectionName = ''users''\<rparr>" and lf = "''uid''" and ff = "''_id''"
       and as' = "''u''" and pl = None and f = "match JNull" and this = "\<lparr>pipeline = 0\<rparr>"
       and h = "[[]]"]
  by (simp add: match_def lookup_def unionWith_def resolve_def TMPipeline_default_def
      new_array_def TMPipeline_new_def read_def spread_def pipeline_field_def getPipeline_def
      getCollectionName_def)

section \<open>C9: stage methods never write to the receiver\<close>

lemma chains_keep_receiver:
  assumes "live h this" and "builders c" and "list_all builders cs1" and "list_all builders cs2"
  shows "(case invoke c this h of (p', h') \<Rightarrow>
            prefix h h' \<and> read h' (getPipeline this) = read h (getPipeline this) \<and>
            length h \<le> getPipeline p' \<and> live h' p') \<and>
         (case chain cs1 this h of (p1, h1) \<Rightarrow>
            case chain cs2 this h1 of (p2, h2) \<Rightarrow>
              read h2 (getPipeline this) = read h (getPipeline this) \<and>
              read h2 (getPipeline p1) = read h1 (getPipeline p1) \<and>
              (cs2 \<noteq> [] \<longrightarrow> getPipeline p2 \<noteq> getPipeline p1 \<and> getPipeline p2 \<noteq> getPipeline this) \<and>
              (\<exists>yss. list_all2 appended_by cs1 yss \<and>
                 read h2 (getPipeline p1) = read h (getPipeline this) @ concat yss) \<and>
              (\<exists>yss. list_all2 appended_by cs2 yss \<and>
                 read h2 (getPipeline p2) = read h (getPipeline this) @ concat yss))"
proof -
  have one: "prefix h h' \<and> read h' (getPipeline this) = read h (getPipeline this) \<and>
            length h \<le> getPipeline p' \<and> live h' p'" if i: "invoke c this h = (p', h')" for p' h'
    using invoke_props(1,2,3) [OF assms(1,2) i] assms(1)
    by (simp add: prefix_read live_def getPipeline_def)
  have b1: "\<forall>c\<in>set cs1. builders c" and b2: "\<forall>c\<in>set cs2. builders c"
    using assms(3,4) by (simp_all add: list_all_iff)
  have two: "read h2 (getPipeline this) = read h (getPipeline this) \<and>
              read h2 (getPipeline p1) = read h1 (getPipeline p1) \<and>
              (cs2 \<noteq> [] \<longrightarrow> getPipeline p2 \<noteq> getPipeline p1 \<and> getPipeline p2 \<noteq> getPipeline this) \<and>
              (\<exists>yss. list_all2 appended_by cs1 yss \<and>
                 read h2 (getPipeline p1) = read h (getPipeline this) @ concat yss) \<and>
              (\<exists>yss. list_all2 appended_by cs2 yss \<and>
                 read h2 (getPipeline p2) = read h (getPipeline this) @ concat yss)"
    if c1: "chain cs1 this h = (p1, h1)" and c2: "chain cs2 this h1 = (p2, h2)" for p1 h1 p2 h2
  proof -
    from chain_props [OF assms(1) b1 c1] obtain yss1 where
      pre1: "prefix h h1" and l1: "live h1 p1" and
      y1: "list_all2 appended_by cs1 yss1"
          "read h1 (getPipeline p1) = read h (getPipeline this) @ concat yss1" by blast
    have lt: "live h1 this" using pre1 assms(1) by (rule prefix_live)
    from chain_props [OF lt b2 c2] obtain yss2 where
      pre2: "prefix h1 h2" and f2: "cs2 \<noteq> [] \<longrightarrow> length h1 \<le> getPipeline p2" and
      y2: "list_all2 appended_by cs2 yss2"
          "read h2 (getPipeline p2) = read h1 (getPipeline this) @ concat yss2" by blast
    have r0: "read h1 (getPipeline this) = read h (getPipeline this)"
      using pre1 assms(1) by (simp add: prefix_read live_def getPipeline_def)
    have r1: "read h2 (getPipeline this) = read h1 (getPipeline this)"
      using pre2 lt by (simp add: prefix_read live_def getPipeline_def)
    have r2: "read h2 (getPipeline p1) = read h1 (getPipeline p1)"
      using pre2 l1 by (simp add: prefix_read live_def getPipeline_def)
    have "cs2 \<noteq> [] \<longrightarrow> getPipeline p2 \<noteq> getPipeline p1 \<and> getPipeline p2 \<noteq> getPipeline this"
      using f2 l1 lt by (auto simp: live_def getPipeline_def)
    then show ?thesis using r0 r1 r2 y1 y2 by auto
  qed
  obtain p' h' where i: "invoke c this h = (p', h')" by (cases "invoke c this h")
  obtain p1 h1 where c1: "chain cs1 this h = (p1, h1)" by (cases "chain cs1 this h")
  obtain p2 h2 where c2: "chain cs2 this h1 = (p2, h2)" by (cases "chain cs2 this h1")
  show ?thesis unfolding i c1 c2 prod.case using one [OF i] two [OF c1 c2] by (rule conjI)
qed

text \<open>
  Claim C9. Each of the ten stage methods (\<open>invoke c\<close>, for every call \<open>c\<close>) writes
  nothing but one new array: the store it leaves is the store its callback left (the
  store it started in, when it has none), followed by the array of the pipeline it
  returns, which holds the receiver's stages and what the call appends. When the
  callbacks given to \<open>lookup\<close> and \<open>unionWith\<close> are builders, every array of the store
  is therefore as it was, the receiver's among them, and the returned pipeline has an
  array that did not exist before the call. Hence, when one pipeline value is extended
  along two chains, one after the other, the receiver's stages are what they were, the
  first chain's result is not changed by the second, the two results are different
  arrays, and each holds the receiver's stages followed by the stages of its own chain
  only.
\<close>

theorem stage_methods_keep_receiver:
  "(case invoke c this h of (p', h') \<Rightarrow>
      (\<exists>ys. appended_by c ys \<and>
         h' = snd (resolve (callback c) h) @
                [read (snd (resolve (callback c) h)) (getPipeline this) @ ys]) \<and>
      getPipeline p' = length (snd (resolve (callback c) h))) \<and>
   (live h this \<and> builders c \<and> list_all builders cs1 \<and> list_all builders cs2 \<longrightarrow>
      (case invoke c this h of (p', h') \<Rightarrow>
         prefix h h' \<and> read h' (getPipeline this) = read h (getPipeline this) \<and>
         length h \<le> getPipeline p' \<and> live h' p') \<and>
      (case chain cs1 this h of (p1, h1) \<Rightarrow>
         case chain cs2 this h1 of (p2, h2) \<Rightarrow>
           read h2 (getPipeline this) = read h (getPipeline this) \<and>
           read h2 (getPipeline p1) = read h1 (getPipeline p1) \<and>
           (cs2 \<noteq> [] \<longrightarrow> getPipeline p2 \<noteq> getPipeline p1 \<and> getPipeline p2 \<noteq> getPipeline this) \<and>
           (\<exists>yss. list_all2 appended_by cs1 yss \<and>
              read h2 (getPipeline p1) = read h (getPipeline this) @ concat yss) \<and>
           (\<exists>yss. list_all2 appended_by cs2 yss \<and>
              read h2 (getPipeline p2) = read h (getPipeline this) @ concat yss)))"
proof (intro conjI impI)
  obtain ys h1 where ys: "appended_by c ys" and h1: "h1 = snd (resolve (callback c) h)"
    and inv: "invoke c this h = push ys this h1"
    using invoke_push by blast
  obtain p' h' where p: "push ys this h1 = (p', h')" by (cases "push ys this h1")
  from push_spec [OF p] have "h' = h1 @ [read h1 (getPipeline this) @ ys]"
    and "getPipeline p' = length h1" by simp_all
  then show "case invoke c this h of (p', h') \<Rightarrow>
      (\<exists>ys. appended_by c ys \<and>
         h' = snd (resolve (callback c) h) @
                [read (snd (resolve (callback c) h)) (getPipeline this) @ ys]) \<and>
      getPipeline p' = length (snd (resolve (callback c) h))"
    using ys h1 unfolding inv p prod.case by blast
next
  assume "live h this \<and> builders c \<and> list_all builders cs1 \<and> list_all builders cs2"
  then have a: "live h this" "builders c" "list_all builders cs1" "list_all builders cs2"
    by simp_all
  from chains_keep_receiver [OF a]
  show "case invoke c this h of (p', h') \<Rightarrow>
         prefix h h' \<and> read h' (getPipeline this) = read h (getPipeline this) \<and>
         length h \<le> getPipeline p' \<and> live h' p'"
    by (rule conjunct1)
  from chains_keep_receiver [OF a]
  show "case chain cs1 this h of (p1, h1) \<Rightarrow>
         case chain cs2 this h1 of (p2, h2) \<Rightarrow>
           read h2 (getPipeline this) = read h (getPipeline this) \<and>
           read h2 (getPipeline p1) = read h1 (getPipeline p1) \<and>
           (cs2 \<noteq> [] \<longrightarrow> getPipeline p2 \<noteq> getPipeline p1 \<and> getPipeline p2 \<noteq> getPipeline this) \<and>
           (\<exists>yss. list_all2 appended_by cs1 yss \<and>
              read h2 (getPipeline p1) = read h (getPipeline this) @ concat yss) \<and>
           (\<exists>yss. list_all2 appended_by cs2 yss \<and>
              read h2 (getPipeline p2) = read h (getPipeline this) @ concat yss)"
    by (rule conjunct2)
qed

lemma builder_out: "builder (out s)"
  using builder_invoke [of "COut s"] by (simp add: builders_def)

theorem getPipeline_call_order_witness:
  "live [[]] \<lparr>pipeline = 0\<rparr> \<and>
   list_all builders
     [CMatch (JObj [(''a'', JNum 1)]),
      CLookup (LookupSub \<lparr>collectionName = ''users''\<rparr> ''u'' (out ''x'')),
      COut ''t''] \<and>
   chain
     [CMatch (JObj [(''a'', JNum 1)]),
      CLookup (LookupSub \<lparr>collectionName = ''users''\<rparr> ''u'' (out ''x'')),
      COut ''t''] \<lparr>pipeline = 0\<rparr> [[]] =
     (\<lparr>pipeline = 5\<rparr>,
      [[],
       [JObj [(''$match'', JObj [(''a'', JNum 1)])]],
       [],
       [JObj [(''$out'', JStr ''x'')]],
       [JObj [(''$match'', JObj [(''a'', JNum 1)])],
        JObj [(''$lookup'', JObj [(''from'', JStr ''users''), (''as'', JStr ''u''), (''pipeline'', JRef 3)])]],
       [JObj [(''$match'', JObj [(''a'', JNum 1)])],
        JObj [(''$lookup'', JObj [(''from'', JStr ''users''), (''as'', JStr ''u''), (''pipeline'', JRef 3)])],
        JObj [(''$out'', JStr ''t'')]]]) \<and>
   (\<exists>yss. list_all2 appended_by
       [CMatch (JObj [(''a'', JNum 1)]),
        CLookup (LookupSub \<lparr>collectionName = ''users''\<rparr> ''u'' (out ''x'')),
        COut ''t''] yss \<and>
      [JObj [(''$match'', JObj [(''a'', JNum 1)])],
        JObj [(''$lookup'', JObj [(''from'', JStr ''users''), (''as'', JStr ''u''), (''pipeline'', JRef 3)])],
        JObj [(''$out'', JStr ''t'')]] = [] @ concat yss)"
proof -
  let ?cs = "[CMatch (JObj [(''a'', JNum 1)]),
      CLookup (LookupSub \<lparr>collectionName = ''users''\<rparr> ''u'' (out ''x'')),
      COut ''t'']"
  have l: "live [[]] \<lparr>pipeline = 0\<rparr>" by (simp add: live_def)
  have b: "list_all builders ?cs" by (simp add: builders_def builder_out)
  have c: "chain ?cs \<lparr>pipeline = 0\<rparr> [[]] =
     (\<lparr>pipeline = 5\<rparr>,
      [[],
       [JObj [(''$match'', JObj [(''a'', JNum 1)])]],
       [],
       [JObj [(''$out'', JStr ''x'')]],
       [JObj [(''$match'', JObj [(''a'', JNum 1)])],
        JObj [(''$lookup'', JObj [(''from'', JStr ''users''), (''as'', JStr ''u''), (''pipeline'', JRef 3)])]],
       [JObj [(''$match'', JObj [(''a'', JNum 1)])],
        JObj [(''$lookup'', JObj [(''from'', JStr ''users''), (''as'', JStr ''u''), (''pipeline'', JRef 3)])],
        JObj [(''$out'', JStr ''t'')]]])"
    by (simp add: match_def lookup_def out_def resolve_def TMPipeline_default_def new_array_def
        TMPipeline_new_def read_def spread_def pipeline_field_def getPipeline_def
        getCollectionName_def)
  from getPipeline_call_order [OF l b c] show ?thesis using l b c
    by (simp add: read_def getPipeline_def)
qed


theorem stage_methods_keep_receiver_witness:
  "live [[]] \<lparr>pipeline = 0\<rparr> \<and>
   builders (CLookup (LookupFields \<lparr>collectionName = ''users''\<rparr> ''uid'' ''_id'' ''u'' (Some (out ''x'')))) \<and>
   list_all builders [CMatch JNull] \<and>
   list_all builders [CUnionWith (UnionWithQuery \<lparr>collectionName = ''users''\<rparr> None)] \<and>
   (case invoke (CLookup (LookupFields \<lparr>collectionName = ''users''\<rparr> ''uid'' ''_id'' ''u'' (Some (out ''x''))))
        \<lparr>pipeline = 0\<rparr> [[]] of
      (p', h') \<Rightarrow> prefix [[]] h' \<and> read h' 0 = [] \<and> getPipeline p' = 3 \<and> live h' p') \<and>
   (case chain [CMatch JNull] \<lparr>pipeline = 0\<rparr> [[]] of
      (p1, h1) \<Rightarrow>
        case chain [CUnionWith (UnionWithQuery \<lparr>collectionName = ''users''\<rparr> None)]
            \<lparr>pipeline = 0\<rparr> h1 of
          (p2, h2) \<Rightarrow>
            read h2 0 = [] \<and>
            read h2 (getPipeline p1) = [JObj [(''$match'', JNull)]] \<and>
            getPipeline p1 = 1 \<and> getPipeline p2 = 2 \<and>
            read h2 (getPipeline p2) =
              [JObj [(''$unionWith'', JObj [(''coll'', JStr ''users'')])]])"
proof -
  have l: "live [[]] \<lparr>pipeline = 0\<rparr>" by (simp add: live_def)
  have b: "builders (CLookup (LookupFields \<lparr>collectionName = ''users''\<rparr> ''uid'' ''_id'' ''u'' (Some (out ''x''))))"
    by (simp add: builders_def builder_out)
  have b1: "list_all builders [CMatch JNull]" by (simp add: builders_def)
  have b2: "list_all builders [CUnionWith (UnionWithQuery \<lparr>collectionName = ''users''\<rparr> None)]"
    by (simp add: builders_def)
  from stage_methods_keep_receiver
    [where c = "CLookup (LookupFields \<lparr>collectionName = ''users''\<rparr> ''uid'' ''_id'' ''u'' (Some (out ''x'')))"
       and this = "\<lparr>pipeline = 0\<rparr>" and h = "[[]]" and ?cs1.0 = "[CMatch JNull]"
       and ?cs2.0 = "[CUnionWith (UnionWithQuery \<lparr>collectionName = ''users''\<rparr> None)]"]
  show ?thesis using l b b1 b2
    by (simp add: match_def lookup_def unionWith_def out_def resolve_def TMPipeline_default_def
        new_array_def TMPipeline_new_def read_def spread_def pipeline_field_def getPipeline_def
        getCollectionName_def live_def)
qed

section \<open>C1: the scheduled order puts every dependency first\<close>













section \<open>C5: the built graph holds exactly the required models\<close>

lemma lookup_model_in: "lookup_model reg n = Some m \<Longrightarrow> m \<in> set (models reg) \<and> name m = n"
  unfolding lookup_model_def find_Some_iff by (metis nth_mem)

lemma models_iff: "m \<in> set (models reg) \<longleftrightarrow> Model m \<in> set reg"
  by (induction reg rule: models.induct) auto

lemma lookup_source_in: "lookup_source reg r = Some s \<Longrightarrow> s \<in> set reg \<and> source_name s = r"
  unfolding lookup_source_def find_Some_iff by (metis nth_mem)

lemma resolve_wanted_in: "resolve_wanted reg w = Some m \<Longrightarrow> m \<in> set (models reg)"
  by (cases w) (auto simp: models_iff dest: lookup_model_in lookup_source_in split: option.splits source.splits)


lemma embedded_embeds: "r \<in> set (embedded s) \<Longrightarrow> embeds s r"
proof (induction s rule: embedded.induct)
  case 1
  then show ?case by simp
next
  case (2 n)
  then show ?case by (simp add: embeds.operand)
next
  case (3 n sub)
  from 3(2) consider "r = n" | s where "s \<in> set sub" "r \<in> set (embedded s)" by auto
  then show ?case
  proof cases
    case 1
    then show ?thesis by (simp add: embeds.operand)
  next
    case 2
    then have "embeds s r" by (rule 3(1))
    with 2(1) show ?thesis by (rule embeds.nested)
  qed
qed

lemma embeds_embedded: "embeds s r \<Longrightarrow> r \<in> set (embedded s)"
proof (induction rule: embeds.induct)
  case (operand n sub)
  then show ?case by (cases sub) simp_all
next
  case (nested s ss r n)
  then show ?case by auto
qed

lemma scan_reads:
  "r \<in> set (primary (scan m ks) # auxiliary (scan m ks)) \<longleftrightarrow> reads m r"
proof -
  have "r \<in> set (embedded s) \<longleftrightarrow> embeds s r" for s
    using embedded_embeds embeds_embedded by blast
  then show ?thesis by (simp add: scan_def reads_def)
qed

lemma lookup_model_distinct:
  assumes "distinct (model_names reg)" and "m \<in> set (models reg)"
  shows "lookup_model reg (name m) = Some m"
proof -
  have "distinct (map name ms) \<Longrightarrow> m \<in> set ms \<Longrightarrow> find (\<lambda>x. name x = name m) ms = Some m" for ms
    by (induction ms) auto
  then show ?thesis using assms by (simp add: lookup_model_def model_names_def)
qed

lemma nodes_expand: "nodes (expand reg m r g) = nodes g @ [name m]"
  by (simp add: expand_def)

declare build_loop.simps(2) [simp del]

lemma build_loop_skip:
  "(\<And>m. \<not> fresh reg w g m) \<Longrightarrow> build_loop reg (w # work) g = build_loop reg work g"
  by (auto simp: build_loop.simps(2) fresh_def split: option.splits)

lemma build_loop_expand:
  "fresh reg w g m \<Longrightarrow>
     build_loop reg (w # work) g =
       build_loop reg
         (Reference (primary (scan m (map source_name reg))) #
            map Reference (auxiliary (scan m (map source_name reg))) @ work)
         (expand reg m (scan m (map source_name reg)) g)"
  by (simp add: build_loop.simps(2) fresh_def Let_def)

lemma build_loop_cases:
  assumes "\<And>reg g. P reg [] g"
    and "\<And>reg w work g. (\<And>m. \<not> fresh reg w g m) \<Longrightarrow> P reg work g \<Longrightarrow> P reg (w # work) g"
    and "\<And>reg w work g m. fresh reg w g m \<Longrightarrow>
           P reg (Reference (primary (scan m (map source_name reg))) #
                    map Reference (auxiliary (scan m (map source_name reg))) @ work)
             (expand reg m (scan m (map source_name reg)) g) \<Longrightarrow>
           P reg (w # work) g"
  shows "P reg work g"
proof (induction reg work g rule: build_loop.induct)
  case (1 reg g)
  show ?case by (rule assms(1))
next
  case (2 reg w work g)
  show ?case
  proof (cases "resolve_wanted reg w")
    case None
    then have "\<And>m. \<not> fresh reg w g m" by (simp add: fresh_def)
    then show ?thesis using 2(1) [OF None] by (rule assms(2))
  next
    case (Some m)
    show ?thesis
    proof (cases "name m \<in> set (nodes g)")
      case True
      then have "\<And>m'. \<not> fresh reg w g m'" using Some by (auto simp: fresh_def)
      then show ?thesis using 2(2) [OF Some True] by (rule assms(2))
    next
      case False
      have f: "fresh reg w g m" using Some False by (simp add: fresh_def)
      show ?thesis using f 2(3) [OF Some False refl] by (rule assms(3))
    qed
  qed
qed


lemma build_loop_mono: "set (nodes g) \<subseteq> set (nodes (build_loop reg work g))"
proof (induction reg work g rule: build_loop_cases)
  case (1 reg g)
  show ?case by simp
next
  case (2 reg w work g)
  have eq: "build_loop reg (w # work) g = build_loop reg work g"
    using 2(1) by (rule build_loop_skip)
  show ?case unfolding eq by (rule 2(2))
next
  case (3 reg w work g m)
  let ?r = "scan m (map source_name reg)"
  note eq = build_loop_expand [OF 3(1)]
  have "set (nodes g) \<subseteq> set (nodes (expand reg m ?r g))" by (auto simp: nodes_expand)
  then show ?case unfolding eq using 3(2) by (rule subset_trans)
qed

lemma build_loop_work:
  "v \<in> set work \<Longrightarrow> resolve_wanted reg v = Some m' \<Longrightarrow>
     name m' \<in> set (nodes (build_loop reg work g))"
proof (induction reg work g rule: build_loop_cases)
  case (1 reg g)
  then show ?case by simp
next
  case (2 reg w work g)
  have eq: "build_loop reg (w # work) g = build_loop reg work g"
    using 2(1) by (rule build_loop_skip)
  show ?case
  proof (cases "v = w")
    case True
    then have "name m' \<in> set (nodes g)" using 2(1) [of m'] 2(4) by (simp add: fresh_def)
    then show ?thesis unfolding eq using build_loop_mono by blast
  next
    case False
    then have "v \<in> set work" using 2(3) by simp
    then show ?thesis unfolding eq using 2(4) by (rule 2(2))
  qed
next
  case (3 reg w work g m)
  let ?r = "scan m (map source_name reg)"
  note eq = build_loop_expand [OF 3(1)]
  show ?case
  proof (cases "v = w")
    case True
    then have "m' = m" using 3(1,4) by (simp add: fresh_def)
    then have "name m' \<in> set (nodes (expand reg m ?r g))" by (simp add: nodes_expand)
    then show ?thesis unfolding eq using build_loop_mono by blast
  next
    case False
    then have "v \<in> set (Reference (primary ?r) # map Reference (auxiliary ?r) @ work)"
      using 3(3) by simp
    then show ?thesis unfolding eq using 3(4) by (rule 3(2))
  qed
qed

lemma requires_step:
  assumes "distinct (model_names reg)" and "m \<in> set (models reg)"
  shows "(name m, b) \<in> requires reg \<longleftrightarrow>
     (\<exists>r\<in>set (primary (scan m ks) # auxiliary (scan m ks)).
        \<exists>m'. resolve_wanted reg (Reference r) = Some m' \<and> b = name m')"
proof -
  have res: "resolve_wanted reg (Reference r) = Some m' \<longleftrightarrow> lookup_source reg r = Some (Model m')"
    for r m' by (auto split: option.splits source.splits)
  have "(name m, b) \<in> requires reg \<longleftrightarrow>
      (\<exists>r m'. reads m r \<and> lookup_source reg r = Some (Model m') \<and> b = name m')"
    unfolding requires_def using lookup_model_distinct [OF assms] by auto
  then show ?thesis unfolding res using scan_reads [of _ m ks] by blast
qed

lemma pending_Cons:
  "pending reg (w # work) =
     (case resolve_wanted reg w of None \<Rightarrow> {} | Some m \<Rightarrow> {name m}) \<union> pending reg work"
  unfolding pending_def by (cases "resolve_wanted reg w") auto

lemma pending_mono: "set work \<subseteq> set work' \<Longrightarrow> pending reg work \<subseteq> pending reg work'"
  unfolding pending_def by blast

lemma pendingI: "w \<in> set work \<Longrightarrow> resolve_wanted reg w = Some m \<Longrightarrow> name m \<in> pending reg work"
  unfolding pending_def by blast

lemma pending_Cons_skip:
  assumes "\<And>m. \<not> fresh reg w g m"
  shows "pending reg (w # work) \<subseteq> set (nodes g) \<union> pending reg work"
proof (cases "resolve_wanted reg w")
  case None
  then show ?thesis by (simp add: pending_Cons)
next
  case (Some m)
  then have "name m \<in> set (nodes g)" using assms [of m] by (simp add: fresh_def)
  then show ?thesis using Some by (simp add: pending_Cons)
qed

lemma build_loop_closed:
  "distinct (model_names reg) \<Longrightarrow>
   (\<forall>a\<in>set (nodes g). \<forall>b. (a, b) \<in> requires reg \<longrightarrow> b \<in> set (nodes g) \<union> pending reg work) \<Longrightarrow>
     a \<in> set (nodes (build_loop reg work g)) \<Longrightarrow> (a, b) \<in> requires reg \<Longrightarrow>
     b \<in> set (nodes (build_loop reg work g))"
proof (induction reg work g rule: build_loop_cases)
  case (1 reg g)
  have "a \<in> set (nodes g)" using 1(3) by simp
  then have "b \<in> set (nodes g) \<union> pending reg []" using 1(2,4) by blast
  then show ?case by (simp add: pending_def)
next
  case (2 reg w work g)
  have eq: "build_loop reg (w # work) g = build_loop reg work g"
    using 2(1) by (rule build_loop_skip)
  have inv: "\<forall>a\<in>set (nodes g). \<forall>b. (a, b) \<in> requires reg \<longrightarrow> b \<in> set (nodes g) \<union> pending reg work"
  proof (intro ballI allI impI)
    fix x y assume "x \<in> set (nodes g)" and "(x, y) \<in> requires reg"
    then have "y \<in> set (nodes g) \<union> pending reg (w # work)" using 2(4) by blast
    then show "y \<in> set (nodes g) \<union> pending reg work"
      using pending_Cons_skip [of reg w g work, OF 2(1)] by blast
  qed
  have "a \<in> set (nodes (build_loop reg work g))" using 2(5) unfolding eq .
  from 2(2) [OF 2(3) inv this 2(6)] show ?case unfolding eq .
next
  case (3 reg w work g m)
  let ?r = "scan m (map source_name reg)"
  let ?work = "Reference (primary ?r) # map Reference (auxiliary ?r) @ work"
  note eq = build_loop_expand [OF 3(1)]
  have rw: "resolve_wanted reg w = Some m" using 3(1) by (simp add: fresh_def)
  then have m: "m \<in> set (models reg)" by (rule resolve_wanted_in)
  have sub: "pending reg (w # work) \<subseteq> {name m} \<union> pending reg ?work"
  proof -
    have "pending reg work \<subseteq> pending reg ?work" by (rule pending_mono) auto
    then show ?thesis using rw by (auto simp: pending_Cons)
  qed
  have inv: "\<forall>a\<in>set (nodes (expand reg m ?r g)). \<forall>b. (a, b) \<in> requires reg \<longrightarrow>
      b \<in> set (nodes (expand reg m ?r g)) \<union> pending reg ?work"
  proof (intro ballI allI impI)
    fix x y assume x: "x \<in> set (nodes (expand reg m ?r g))" and y: "(x, y) \<in> requires reg"
    show "y \<in> set (nodes (expand reg m ?r g)) \<union> pending reg ?work"
    proof (cases "x = name m")
      case True
      then have "(name m, y) \<in> requires reg" using y by simp
      then have "\<exists>r\<in>set (primary ?r # auxiliary ?r).
          \<exists>m'. resolve_wanted reg (Reference r) = Some m' \<and> y = name m'"
        unfolding requires_step [OF 3(3) m, of y "map source_name reg"] .
      then obtain r m' where r: "r \<in> set (primary ?r # auxiliary ?r)"
        and m': "resolve_wanted reg (Reference r) = Some m'" and y': "y = name m'"
        by blast
      have "Reference r \<in> set ?work" using r by auto
      then have "name m' \<in> pending reg ?work" using m' by (rule pendingI)
      then show ?thesis using y' by simp
    next
      case False
      then have "x \<in> set (nodes g)" using x by (simp add: nodes_expand)
      then have "y \<in> set (nodes g) \<union> pending reg (w # work)" using 3(4) y by blast
      then have "y \<in> set (nodes g) \<union> ({name m} \<union> pending reg ?work)" using sub by blast
      then show ?thesis by (simp add: nodes_expand)
    qed
  qed
  have "a \<in> set (nodes (build_loop reg ?work (expand reg m ?r g)))"
    using 3(5) unfolding eq .
  from 3(2) [OF 3(3) inv this 3(6)] show ?case unfolding eq .
qed

lemma build_loop_sound:
  "distinct (model_names reg) \<Longrightarrow> a \<in> set (nodes (build_loop reg work g)) \<Longrightarrow>
     a \<in> set (nodes g) \<or> (\<exists>n\<in>pending reg work. (n, a) \<in> (requires reg)\<^sup>*)"
proof (induction reg work g rule: build_loop_cases)
  case (1 reg g)
  then show ?case by simp
next
  case (2 reg w work g)
  have eq: "build_loop reg (w # work) g = build_loop reg work g"
    using 2(1) by (rule build_loop_skip)
  have "a \<in> set (nodes (build_loop reg work g))" using 2(4) unfolding eq .
  from 2(2) [OF 2(3) this] show ?case using pending_mono [of work "w # work" reg] by auto
next
  case (3 reg w work g m)
  let ?r = "scan m (map source_name reg)"
  let ?work = "Reference (primary ?r) # map Reference (auxiliary ?r) @ work"
  note eq = build_loop_expand [OF 3(1)]
  have rw: "resolve_wanted reg w = Some m" using 3(1) by (simp add: fresh_def)
  then have m: "m \<in> set (models reg)" by (rule resolve_wanted_in)
  have top: "name m \<in> pending reg (w # work)" using rw by (simp add: pending_Cons)
  have "a \<in> set (nodes (build_loop reg ?work (expand reg m ?r g)))"
    using 3(4) unfolding eq .
  from 3(2) [OF 3(3) this] consider "a \<in> set (nodes g)" | "a = name m"
    | n where "n \<in> pending reg ?work" "(n, a) \<in> (requires reg)\<^sup>*"
    by (auto simp: nodes_expand)
  then show ?case
  proof cases
    case 1
    then show ?thesis by simp
  next
    case 2
    then show ?thesis using top by blast
  next
    case 3
    from 3(1) obtain v m' where v: "v \<in> set ?work" "resolve_wanted reg v = Some m'" "n = name m'"
      unfolding pending_def by blast
    show ?thesis
    proof (cases "v \<in> set work")
      case True
      then have "v \<in> set (w # work)" by simp
      then have "n \<in> pending reg (w # work)" using v(2,3) pendingI by blast
      then show ?thesis using 3(2) by blast
    next
      case False
      then obtain r where "v = Reference r" "r \<in> set (primary ?r # auxiliary ?r)"
        using v(1) by auto
      then have "\<exists>r\<in>set (primary ?r # auxiliary ?r).
          \<exists>m'. resolve_wanted reg (Reference r) = Some m' \<and> n = name m'"
        using v(2,3) by blast
      then have "(name m, n) \<in> requires reg"
        unfolding requires_step [OF \<open>distinct (model_names reg)\<close> m, of n "map source_name reg"] .
      then have "(name m, a) \<in> (requires reg)\<^sup>*" using 3(2) by (rule converse_rtrancl_into_rtrancl)
      then show ?thesis using top by blast
    qed
  qed
qed

text \<open>
  Claim C5. For every registry whose model names are unique and every list of targets,
  the models of the graph that \<open>build\<close> returns are exactly the registered models that
  some registered target requires, transitively, through primary or auxiliary
  references: each of them is included, and no other registered model is.
\<close>

theorem build_exactly_required:
  assumes "distinct (model_names reg)"
  shows "set (nodes (build reg targets)) =
     {n. \<exists>t\<in>set targets. lookup_model reg t \<noteq> None \<and> (t, n) \<in> (requires reg)\<^sup>*}"
proof (intro equalityI subsetI)
  have p: "pending reg (map Target targets) = {t \<in> set targets. lookup_model reg t \<noteq> None}"
  proof -
    have "pending reg (map Target ts) = {t \<in> set ts. lookup_model reg t \<noteq> None}" for ts
    proof (induction ts)
      case Nil
      show ?case by (simp add: pending_def)
    next
      case (Cons t ts)
      show ?case
      proof (cases "lookup_model reg t")
        case None
        then show ?thesis using Cons.IH by (auto simp: pending_Cons)
      next
        case (Some m)
        then have "name m = t" by (auto dest: lookup_model_in)
        then show ?thesis using Some Cons.IH by (auto simp: pending_Cons)
      qed
    qed
    then show ?thesis .
  qed
  fix n assume "n \<in> set (nodes (build reg targets))"
  then have "n \<in> set (nodes (build_loop reg (map Target targets) \<lparr>nodes = [], edges = []\<rparr>))"
    unfolding build_def .
  from build_loop_sound [OF assms this]
  show "n \<in> {n. \<exists>t\<in>set targets. lookup_model reg t \<noteq> None \<and> (t, n) \<in> (requires reg)\<^sup>*}"
    unfolding p by auto
next
  fix n assume "n \<in> {n. \<exists>t\<in>set targets. lookup_model reg t \<noteq> None \<and> (t, n) \<in> (requires reg)\<^sup>*}"
  then obtain t m where t: "t \<in> set targets" and m: "lookup_model reg t = Some m"
    and r: "(t, n) \<in> (requires reg)\<^sup>*"
    by blast
  let ?g0 = "\<lparr>nodes = [], edges = []\<rparr>"
  let ?w = "map Target targets"
  have inv: "\<forall>a\<in>set (nodes ?g0). \<forall>b. (a, b) \<in> requires reg \<longrightarrow>
      b \<in> set (nodes ?g0) \<union> pending reg ?w" by simp
  have "name m = t" using m by (auto dest: lookup_model_in)
  moreover have "name m \<in> set (nodes (build_loop reg ?w ?g0))"
    using t m by (intro build_loop_work [of "Target t"]) simp_all
  ultimately have base: "t \<in> set (nodes (build_loop reg ?w ?g0))" by simp
  from r have "n \<in> set (nodes (build_loop reg ?w ?g0))"
  proof (induction rule: rtrancl_induct)
    case base
    show ?case by (rule \<open>t \<in> set (nodes (build_loop reg ?w ?g0))\<close>)
  next
    case (step y z)
    from step(3) step(2) show ?case by (rule build_loop_closed [OF assms inv])
  qed
  then show "n \<in> set (nodes (build reg targets))" unfolding build_def .
qed

lemma build_example:
  "build
     [Model \<lparr>name = ''A'', primaryInput = ''raw'', stages = [], outputName = ''a_out'', materialization = Replace\<rparr>,
      Model \<lparr>name = ''D'', primaryInput = ''raw'', stages = [], outputName = ''d_out'', materialization = Replace\<rparr>,
      Model \<lparr>name = ''L'', primaryInput = ''raw'', stages = [], outputName = ''l_out'', materialization = Replace\<rparr>,
      Model \<lparr>name = ''B'', primaryInput = ''a_out'',
        stages = [Opaque, Embeds ''l_out'' (Some [Embeds ''d_out'' None])],
        outputName = ''b_out'', materialization = Upsert [''_id'']\<rparr>,
      Model \<lparr>name = ''C'', primaryInput = ''raw'', stages = [], outputName = ''c_out'', materialization = Append\<rparr>,
      Collection ''raw'']
     [''B''] =
   \<lparr>nodes = [''B'', ''A'', ''L'', ''D''],
      edges = [(''B'', ''A'', Primary), (''B'', ''L'', Auxiliary), (''B'', ''D'', Auxiliary),
               (''A'', ''raw'', Primary), (''L'', ''raw'', Primary), (''D'', ''raw'', Primary)]\<rparr>"
  by code_simp

theorem build_exactly_required_witness:
  "distinct (model_names
     [Model \<lparr>name = ''A'', primaryInput = ''raw'', stages = [], outputName = ''a_out'', materialization = Replace\<rparr>,
      Model \<lparr>name = ''D'', primaryInput = ''raw'', stages = [], outputName = ''d_out'', materialization = Replace\<rparr>,
      Model \<lparr>name = ''L'', primaryInput = ''raw'', stages = [], outputName = ''l_out'', materialization = Replace\<rparr>,
      Model \<lparr>name = ''B'', primaryInput = ''a_out'',
        stages = [Opaque, Embeds ''l_out'' (Some [Embeds ''d_out'' None])],
        outputName = ''b_out'', materialization = Upsert [''_id'']\<rparr>,
      Model \<lparr>name = ''C'', primaryInput = ''raw'', stages = [], outputName = ''c_out'', materialization = Append\<rparr>,
      Collection ''raw'']) \<and>
   {n. \<exists>t\<in>set [''B''].
         lookup_model
           [Model \<lparr>name = ''A'', primaryInput = ''raw'', stages = [], outputName = ''a_out'', materialization = Replace\<rparr>,
            Model \<lparr>name = ''D'', primaryInput = ''raw'', stages = [], outputName = ''d_out'', materialization = Replace\<rparr>,
            Model \<lparr>name = ''L'', primaryInput = ''raw'', stages = [], outputName = ''l_out'', materialization = Replace\<rparr>,
            Model \<lparr>name = ''B'', primaryInput = ''a_out'',
              stages = [Opaque, Embeds ''l_out'' (Some [Embeds ''d_out'' None])],
              outputName = ''b_out'', materialization = Upsert [''_id'']\<rparr>,
            Model \<lparr>name = ''C'', primaryInput = ''raw'', stages = [], outputName = ''c_out'', materialization = Append\<rparr>,
            Collection ''raw''] t \<noteq> None \<and>
         (t, n) \<in> (requires
           [Model \<lparr>name = ''A'', primaryInput = ''raw'', stages = [], outputName = ''a_out'', materialization = Replace\<rparr>,
            Model \<lparr>name = ''D'', primaryInput = ''raw'', stages = [], outputName = ''d_out'', materialization = Replace\<rparr>,
            Model \<lparr>name = ''L'', primaryInput = ''raw'', stages = [], outputName = ''l_out'', materialization = Replace\<rparr>,
            Model \<lparr>name = ''B'', primaryInput = ''a_out'',
              stages = [Opaque, Embeds ''l_out'' (Some [Embeds ''d_out'' None])],
              outputName = ''b_out'', materialization = Upsert [''_id'']\<rparr>,
            Model \<lparr>name = ''C'', primaryInput = ''raw'', stages = [], outputName = ''c_out'', materialization = Append\<rparr>,
            Collection ''raw''])\<^sup>*} = {''A'', ''B'', ''D'', ''L''}"
proof -
  let ?reg = "[Model \<lparr>name = ''A'', primaryInput = ''raw'', stages = [], outputName = ''a_out'', materialization = Replace\<rparr>,
      Model \<lparr>name = ''D'', primaryInput = ''raw'', stages = [], outputName = ''d_out'', materialization = Replace\<rparr>,
      Model \<lparr>name = ''L'', primaryInput = ''raw'', stages = [], outputName = ''l_out'', materialization = Replace\<rparr>,
      Model \<lparr>name = ''B'', primaryInput = ''a_out'',
        stages = [Opaque, Embeds ''l_out'' (Some [Embeds ''d_out'' None])],
        outputName = ''b_out'', materialization = Upsert [''_id'']\<rparr>,
      Model \<lparr>name = ''C'', primaryInput = ''raw'', stages = [], outputName = ''c_out'', materialization = Append\<rparr>,
      Collection ''raw'']"
  have d: "distinct (model_names ?reg)" by (simp add: model_names_def)
  from build_exactly_required [OF d, of "[''B'']", symmetric] d show ?thesis
    unfolding build_example by auto
qed

end
